theory Spec2Isabelle
  imports
    Main
    "HOL-Library.Word"
    "HOL-Library.Finite_Map"
    "HOL-Library.Multiset"
begin

unbundle bit_operations_syntax

section \<open>Subscription identifiers (broker/sub.go, \<open>Ssid\<close>)\<close>

text \<open>
  \<open>type Ssid []uint32\<close>. The functions of this section only read the slice, so an
  \<open>Ssid\<close> is the sequence of its elements. A Go run-time panic is a value of type
  \<open>panic\<close>, returned on the left of a sum.
\<close>

type_synonym u32 = "32 word"

type_synonym Ssid = "u32 list"

datatype panic = IndexOutOfRange | NilDereference

text \<open>
  \<open>security.Channel\<close> is declared in another package; \<open>NewSsid\<close> reads its field
  \<open>Query\<close> (the hashed channel tokens) and nothing else.
  Modelled from the spec: the declaration of \<open>security.Channel\<close> is missing; a parsed
  channel is a value "exposing an ordered sequence of token hashes".
\<close>

record security_Channel =
  Query :: "u32 list"

text \<open>
  \<open>NewSsid(contract, c)\<close>: \<open>c\<close> is a pointer, \<open>None\<close> is the nil pointer, on which
  \<open>c.Query\<close> panics. The two \<open>append\<close>s write the contract and then the query into
  a fresh slice.
\<close>

definition NewSsid :: "u32 \<Rightarrow> security_Channel option \<Rightarrow> panic + Ssid" where
  "NewSsid contract c =
     (case c of
        None \<Rightarrow> Inl NilDereference
      | Some ch \<Rightarrow> Inr (([] @ [contract]) @ Query ch))"

text \<open>\<open>Contract\<close> returns \<open>s[0]\<close>; the index panics on the empty slice.\<close>

definition Contract :: "Ssid \<Rightarrow> panic + u32" where
  "Contract s = (case s of [] \<Rightarrow> Inl IndexOutOfRange | c # _ \<Rightarrow> Inr c)"

text \<open>The loop \<open>for _, i := range s[1:] { h ^= i }\<close>, with \<open>h\<close> as accumulator.\<close>

fun xor_range :: "u32 \<Rightarrow> u32 list \<Rightarrow> u32" where
  "xor_range h [] = h"
| "xor_range h (i # rest) = xor_range (h XOR i) rest"

text \<open>
  \<open>GetHashCode\<close>: \<open>h := s[0]\<close> panics on the empty slice; otherwise \<open>s[1:]\<close> is in
  range and the loop runs over it.
\<close>

definition GetHashCode :: "Ssid \<Rightarrow> panic + u32" where
  "GetHashCode s =
     (case s of
        [] \<Rightarrow> Inl IndexOutOfRange
      | h # rest \<Rightarrow> Inr (xor_range h rest))"

text \<open>The spec's wording of the combined hash: the XOR of all elements.\<close>

definition xor_all :: "u32 list \<Rightarrow> u32" where
  "xor_all xs = foldr (XOR) xs 0"

section \<open>Subscriber sets (\<open>Subscribers\<close>)\<close>

text \<open>
  \<open>type Subscribers []Subscriber\<close>. \<open>Subscriber\<close> is an interface, and this file
  uses a subscriber only through \<open>==\<close>.
  Modelled from the spec: the types that implement \<open>Subscriber\<close> are missing; a
  subscriber is "an opaque capability, compared only by identity (reference
  equality)", so it is a value of an arbitrary type \<open>'sub\<close> of handles, and \<open>==\<close> on
  two handles is HOL equality. The receiver \<open>*Subscribers\<close> is passed in and the
  updated slice is returned.
\<close>

type_synonym 'sub Subscribers = "'sub list"

fun Contains :: "'sub Subscribers \<Rightarrow> 'sub \<Rightarrow> bool" where
  "Contains [] val = False"
| "Contains (v # rest) val = (if v = val then True else Contains rest val)"

definition AddUnique :: "'sub Subscribers \<Rightarrow> 'sub \<Rightarrow> 'sub Subscribers" where
  "AddUnique s val = (if Contains s val = False then s @ [val] else s)"

text \<open>A sequence of \<open>AddUnique\<close> calls, left to right.\<close>

fun AddUnique_all :: "'sub Subscribers \<Rightarrow> 'sub list \<Rightarrow> 'sub Subscribers" where
  "AddUnique_all s [] = s"
| "AddUnique_all s (v # vs) = AddUnique_all (AddUnique s v) vs"

section \<open>Subscription counters (\<open>SubscriptionCounters\<close>)\<close>

text \<open>
  \<open>Counter\<close> is a Go \<open>int\<close>: a signed machine integer of 32 or 64 bits, depending on
  the target, whose arithmetic wraps around. The records take the type of the counter
  as a parameter, and every function uses them at a word of width \<open>'w\<close>, read
  with \<open>sint\<close>. \<open>Channel\<close> is an immutable Go string.

  The map \<open>m\<close> holds pointers to \<open>subCounter\<close> objects. Each object is allocated by
  \<open>getOrCreate\<close>, stored under one key and never handed out of the package, so in this
  section the map holds the objects themselves and a pointer to an object is the key
  it is stored under. The section on the store keeps the pointers. The embedded mutex
  serialises the calls; the model is of one call at a time. A registry is made by
  \<open>NewSubscriptionCounters\<close>, with a map; the zero value of the struct, whose map
  is nil, is not one.
\<close>

record 'int subCounter =
  Ssid :: Ssid
  Channel :: string
  Counter :: "'int"

record 'int SubscriptionCounters =
  m :: "(u32, 'int subCounter) fmap"

definition NewSubscriptionCounters :: "'w::len word SubscriptionCounters" where
  "NewSubscriptionCounters = \<lparr>m = fmempty\<rparr>"

text \<open>
  \<open>getOrCreate\<close> returns the state and the pointer to the meter (the key of its
  entry).
\<close>

definition getOrCreate ::
  "'w::len word SubscriptionCounters \<Rightarrow> Ssid \<Rightarrow> string \<Rightarrow>
     panic + ('w word SubscriptionCounters \<times> u32)" where
  "getOrCreate s ssid channel =
     (case GetHashCode ssid of
        Inl e \<Rightarrow> Inl e
      | Inr key \<Rightarrow>
          (case fmlookup (m s) key of
             Some _ \<Rightarrow> Inr (s, key)
           | None \<Rightarrow>
               Inr (s\<lparr>m := fmupd key \<lparr>Ssid = ssid, Channel = channel, Counter = 0\<rparr> (m s)\<rparr>,
                    key)))"

text \<open>
  \<open>Increment\<close>: \<open>m.Counter++\<close> writes through the pointer that \<open>getOrCreate\<close>
  returned. A pointer to no entry would be a nil dereference; \<open>getOrCreate\<close> never
  returns one (lemma \<open>getOrCreate_live\<close>).
\<close>

definition Increment ::
  "'w::len word SubscriptionCounters \<Rightarrow> Ssid \<Rightarrow> string \<Rightarrow> panic + 'w word SubscriptionCounters" where
  "Increment s ssid channel =
     (case getOrCreate s ssid channel of
        Inl e \<Rightarrow> Inl e
      | Inr (s', p) \<Rightarrow>
          (case fmlookup (m s') p of
             None \<Rightarrow> Inl NilDereference
           | Some meter \<Rightarrow>
               Inr (s'\<lparr>m := fmupd p (meter\<lparr>Counter := Counter meter + 1\<rparr>) (m s')\<rparr>)))"

text \<open>
  \<open>Decrement\<close>: the comparison \<open>m.Counter <= 0\<close> is signed; \<open>delete\<close> computes the
  hash a second time.
\<close>

definition Decrement ::
  "'w::len word SubscriptionCounters \<Rightarrow> Ssid \<Rightarrow> panic + 'w word SubscriptionCounters" where
  "Decrement s ssid =
     (case GetHashCode ssid of
        Inl e \<Rightarrow> Inl e
      | Inr key \<Rightarrow>
          (case fmlookup (m s) key of
             None \<Rightarrow> Inr s
           | Some meter \<Rightarrow>
               (let meter' = meter\<lparr>Counter := Counter meter - 1\<rparr>;
                    s' = s\<lparr>m := fmupd key meter' (m s)\<rparr>
                in if sint (Counter meter') \<le> 0
                   then (case GetHashCode ssid of
                           Inl e \<Rightarrow> Inl e
                         | Inr key' \<Rightarrow> Inr (s'\<lparr>m := fmdrop key' (m s')\<rparr>))
                   else Inr s')))"

text \<open>
  \<open>cluster.Subscription\<close> as \<open>All\<close> fills it: the Ssid and the channel as bytes.
  Go leaves the order of \<open>range\<close> over a map unspecified; the model lists the entries
  by ascending key, and the theorems below speak of the set of the result only.
  The function is \<open>All\<close> in the source; \<open>All\<close> is the universal quantifier of HOL.
\<close>

record cluster_Subscription =
  sub_Ssid :: Ssid
  sub_Channel :: string

definition All_subs :: "'w::len word SubscriptionCounters \<Rightarrow> cluster_Subscription list" where
  "All_subs s =
     map (\<lambda>(_, meter). \<lparr>sub_Ssid = Ssid meter, sub_Channel = Channel meter\<rparr>)
         (sorted_list_of_fmap (m s))"

text \<open>A sequence of calls on the registry; a panic ends it.\<close>

datatype 'ssid call = CallIncrement 'ssid string | CallDecrement 'ssid | CallAll

fun step :: "'w::len word SubscriptionCounters \<Rightarrow> Ssid call \<Rightarrow> panic + 'w word SubscriptionCounters" where
  "step s (CallIncrement ssid channel) = Increment s ssid channel"
| "step s (CallDecrement ssid) = Decrement s ssid"
| "step s CallAll = Inr s"

fun run :: "'w::len word SubscriptionCounters \<Rightarrow> Ssid call list \<Rightarrow> panic + 'w word SubscriptionCounters" where
  "run s [] = Inr s"
| "run s (c # cs) = (case step s c of Inl e \<Rightarrow> Inl e | Inr s' \<Rightarrow> run s' cs)"

text \<open>
  The same when the caller recovers from every panic and goes on. \<open>Increment\<close> and
  \<open>Decrement\<close> panic in \<open>GetHashCode\<close>, before they write anything, and the deferred
  \<open>Unlock\<close> releases the mutex: a call that panics leaves the registry as it was.
\<close>

fun run_recover :: "'w::len word SubscriptionCounters \<Rightarrow> Ssid call list \<Rightarrow> 'w word SubscriptionCounters" where
  "run_recover s [] = s"
| "run_recover s (c # cs) =
     (case step s c of Inl e \<Rightarrow> run_recover s cs | Inr s' \<Rightarrow> run_recover s' cs)"



text \<open>
  Every entry is stored under the hash of its own Ssid. \<open>getOrCreate\<close> is the one
  place that stores an entry, under \<open>ssid.GetHashCode()\<close>.
\<close>

definition keyed :: "'w::len word SubscriptionCounters \<Rightarrow> bool" where
  "keyed s = fmpred (\<lambda>k e. GetHashCode (Ssid e) = Inr k) (m s)"


section \<open>The registry in a store: pointers and shared slices\<close>

text \<open>
  The section above takes an Ssid and a \<open>subCounter\<close> as values. Here they are what
  they are in Go. A slice is a header that points into a backing array, and copying
  the header shares the array: \<open>getOrCreate\<close> stores the header it is given
  (\<open>Ssid: ssid\<close>), and \<open>All\<close> copies the header again (\<open>Ssid: m.Ssid\<close>). The map
  holds pointers to \<open>subCounter\<close> objects, and \<open>Increment\<close> and \<open>Decrement\<close>
  write the counter through the pointer. Go is typed: the store has one component
  for the backing arrays of \<open>[]uint32\<close> slices (\<open>words\<close>) and one for the
  \<open>subCounter\<close> objects (\<open>objects\<close>); \<open>lim\<close> is the next address that
  \<open>&subCounter{...}\<close> allocates, and \<open>table\<close> is the map \<open>s.m\<close>.
\<close>

type_synonym addr = nat

text \<open>
  A slice header: the backing array, the offset of element 0 in it, and the length.
  The capacity is left out: no function here appends to an Ssid.
\<close>

record slice =
  sl_array :: addr
  sl_off :: nat
  sl_len :: nat

text \<open>The elements of a slice, read from the store.\<close>

definition elems :: "(addr \<Rightarrow> u32 list) \<Rightarrow> slice \<Rightarrow> Ssid" where
  "elems W sl = take (sl_len sl) (drop (sl_off sl) (W (sl_array sl)))"

record 'int subCounter_obj =
  obj_Ssid :: slice
  obj_Channel :: string
  obj_Counter :: "'int"

record 'int store =
  words :: "addr \<Rightarrow> u32 list"
  objects :: "addr \<Rightarrow> 'int subCounter_obj option"
  lim :: addr
  table :: "(u32, addr) fmap"

text \<open>
  \<open>NewSubscriptionCounters\<close> in a store: an empty map and no \<open>subCounter\<close> object;
  \<open>W\<close> holds the backing arrays of the slices that the callers will pass.
\<close>

definition NewSubscriptionCounters_st :: "(addr \<Rightarrow> u32 list) \<Rightarrow> 'w::len word store" where
  "NewSubscriptionCounters_st W = \<lparr>words = W, objects = Map.empty, lim = 0, table = fmempty\<rparr>"

definition getOrCreate_st ::
  "'w::len word store \<Rightarrow> slice \<Rightarrow> string \<Rightarrow> panic + ('w word store \<times> addr)" where
  "getOrCreate_st S ssid channel =
     (case GetHashCode (elems (words S) ssid) of
        Inl e \<Rightarrow> Inl e
      | Inr key \<Rightarrow>
          (case fmlookup (table S) key of
             Some p \<Rightarrow> Inr (S, p)
           | None \<Rightarrow>
               (let p = lim S;
                    meter = \<lparr>obj_Ssid = ssid, obj_Channel = channel, obj_Counter = 0\<rparr>
                in Inr (S\<lparr>objects := (objects S)(p \<mapsto> meter), lim := Suc p,
                          table := fmupd key p (table S)\<rparr>, p))))"

text \<open>\<open>m.Counter++\<close> is a write to the object at \<open>p\<close>.\<close>

definition Increment_st ::
  "'w::len word store \<Rightarrow> slice \<Rightarrow> string \<Rightarrow> panic + 'w word store" where
  "Increment_st S ssid channel =
     (case getOrCreate_st S ssid channel of
        Inl e \<Rightarrow> Inl e
      | Inr (S', p) \<Rightarrow>
          (case objects S' p of
             None \<Rightarrow> Inl NilDereference
           | Some meter \<Rightarrow>
               Inr (S'\<lparr>objects := (objects S')(p \<mapsto> meter\<lparr>obj_Counter := obj_Counter meter + 1\<rparr>)\<rparr>)))"

definition Decrement_st :: "'w::len word store \<Rightarrow> slice \<Rightarrow> panic + 'w word store" where
  "Decrement_st S ssid =
     (case GetHashCode (elems (words S) ssid) of
        Inl e \<Rightarrow> Inl e
      | Inr key \<Rightarrow>
          (case fmlookup (table S) key of
             None \<Rightarrow> Inr S
           | Some p \<Rightarrow>
               (case objects S p of
                  None \<Rightarrow> Inl NilDereference
                | Some meter \<Rightarrow>
                    (let meter' = meter\<lparr>obj_Counter := obj_Counter meter - 1\<rparr>;
                         S' = S\<lparr>objects := (objects S)(p \<mapsto> meter')\<rparr>
                     in if sint (obj_Counter meter') \<le> 0
                        then (case GetHashCode (elems (words S') ssid) of
                                Inl e \<Rightarrow> Inl e
                              | Inr key' \<Rightarrow> Inr (S'\<lparr>table := fmdrop key' (table S')\<rparr>))
                        else Inr S'))))"

text \<open>
  \<open>cluster.Subscription\<close> in the store: \<open>Ssid: m.Ssid\<close> copies the slice header, so
  the snapshot shares the backing array with the entry; \<open>[]byte(m.Channel)\<close> is a new
  byte slice with a copy of the immutable string, which nothing else refers to, and
  so is \<open>clone\<close>, made by \<open>make\<close> and returned to the caller: both are values.
  \<open>All_loop\<close> is the \<open>range\<close> loop, with \<open>clone\<close> as accumulator.
\<close>

record snapshot_entry =
  snap_Ssid :: slice
  snap_Channel :: string

fun All_loop ::
  "'w::len word store \<Rightarrow> (u32 \<times> addr) list \<Rightarrow> snapshot_entry list \<Rightarrow> panic + snapshot_entry list" where
  "All_loop S [] clone = Inr clone"
| "All_loop S ((k, p) # rest) clone =
     (case objects S p of
        None \<Rightarrow> Inl NilDereference
      | Some meter \<Rightarrow>
          All_loop S rest
            (clone @ [\<lparr>snap_Ssid = obj_Ssid meter, snap_Channel = obj_Channel meter\<rparr>]))"

definition All_st :: "'w::len word store \<Rightarrow> panic + snapshot_entry list" where
  "All_st S = All_loop S (sorted_list_of_fmap (table S)) []"


text \<open>A sequence of calls on the registry in the store; a panic ends it.\<close>

fun step_st :: "'w::len word store \<Rightarrow> slice call \<Rightarrow> panic + 'w word store" where
  "step_st S (CallIncrement ssid channel) = Increment_st S ssid channel"
| "step_st S (CallDecrement ssid) = Decrement_st S ssid"
| "step_st S CallAll = Inr S"

fun run_st :: "'w::len word store \<Rightarrow> slice call list \<Rightarrow> panic + 'w word store" where
  "run_st S [] = Inr S"
| "run_st S (c # cs) = (case step_st S c of Inl e \<Rightarrow> Inl e | Inr S' \<Rightarrow> run_st S' cs)"

text \<open>
  The registry of the section above that a store stands for: every pointer of the
  table replaced by the object it points to, every slice by its elements.
\<close>

definition abs_meter :: "(addr \<Rightarrow> u32 list) \<Rightarrow> 'int subCounter_obj \<Rightarrow> 'int subCounter" where
  "abs_meter W obj =
     \<lparr>Ssid = elems W (obj_Ssid obj), Channel = obj_Channel obj, Counter = obj_Counter obj\<rparr>"

definition abs_registry :: "'w::len word store \<Rightarrow> 'w word SubscriptionCounters" where
  "abs_registry S = \<lparr>m = fmmap (\<lambda>p. abs_meter (words S) (the (objects S p))) (table S)\<rparr>"

text \<open>
  The stores that the functions produce: every pointer in the table is allocated, and
  no two keys share a pointer.
\<close>

definition wf_store :: "'w::len word store \<Rightarrow> bool" where
  "wf_store S \<longleftrightarrow>
     fmpred (\<lambda>k p. p < lim S \<and> objects S p \<noteq> None) (table S) \<and>
     (\<forall>k k' p. fmlookup (table S) k = Some p \<and> fmlookup (table S) k' = Some p \<longrightarrow> k = k')"

section \<open>Properties of subscription identifiers\<close>

lemma xor_range_foldr: "xor_range h xs = h XOR foldr (XOR) xs 0"
proof (induction xs arbitrary: h)
  case Nil
  show ?case by simp
next
  case (Cons x xs)
  show ?case by (simp add: Cons.IH xor.assoc)
qed

lemma GetHashCode_Cons: "GetHashCode (c # ts) = Inr (xor_all (c # ts))"
  by (simp add: GetHashCode_def xor_all_def xor_range_foldr)

text \<open>
  C7. On a non-empty Ssid, \<open>GetHashCode\<close> returns the XOR of all the elements: it
  starts from element 0 and XORs in the remaining elements in order. The result is a
  function of the value of the Ssid alone.
\<close>

theorem C7_GetHashCode_is_xor_of_all:
  "s \<noteq> [] \<Longrightarrow>
     GetHashCode s = Inr (xor_all s) \<and>
     GetHashCode s = Inr (foldl (XOR) (hd s) (tl s))"
proof -
  assume "s \<noteq> []"
  then obtain c ts where s: "s = c # ts" by (cases s) auto
  have loop: "xor_range h xs = foldl (XOR) h xs" for h xs
    by (induction xs arbitrary: h) auto
  have "GetHashCode s = Inr (foldl (XOR) (hd s) (tl s))"
    by (simp add: s GetHashCode_def loop)
  then show ?thesis
    by (simp add: s GetHashCode_Cons)
qed

theorem C7_witness:
  "[1, 6, 5 :: u32] \<noteq> [] \<and>
   GetHashCode [1, 6, 5] = Inr (xor_all [1, 6, 5]) \<and>
   GetHashCode [1, 6, 5] = Inr (foldl (XOR) (hd [1, 6, 5]) (tl [1, 6, 5])) \<and>
   GetHashCode [1, 6, 5] = Inr 2"
  using C7_GetHashCode_is_xor_of_all [of "[1, 6, 5]"]
  by (simp add: GetHashCode_def)

text \<open>
  C8. For a scope \<open>c\<close> and a parsed channel \<open>ch\<close>, \<open>NewSsid\<close> returns the
  sequence \<open>c # Query ch\<close>: the scope first, then the token hashes in order, of
  length \<open>length (Query ch) + 1\<close>, which is at least 1; \<open>Contract\<close> of the result
  is \<open>c\<close>.
\<close>

theorem C8_NewSsid_Contract:
  "(case NewSsid c (Some ch) of
      Inl e \<Rightarrow> False
    | Inr s \<Rightarrow>
        s = c # Query ch \<and> length s = length (Query ch) + 1 \<and> 1 \<le> length s \<and>
        Contract s = Inr c)"
  by (simp add: NewSsid_def Contract_def)

section \<open>Properties of subscriber sets\<close>

lemma Contains_set: "Contains s v = (v \<in> set s)"
  by (induction s) auto

lemma set_AddUnique: "set (AddUnique s v) = insert v (set s)"
  by (auto simp: AddUnique_def Contains_set)

lemma distinct_AddUnique: "distinct s \<Longrightarrow> distinct (AddUnique s v)"
  by (simp add: AddUnique_def Contains_set)

lemma set_AddUnique_all: "set (AddUnique_all s vs) = set s \<union> set vs"
  by (induction vs arbitrary: s) (auto simp: set_AddUnique)

lemma distinct_AddUnique_all: "distinct s \<Longrightarrow> distinct (AddUnique_all s vs)"
  by (induction vs arbitrary: s) (auto simp: distinct_AddUnique)

text \<open>
  C6. After any sequence \<open>vs\<close> of \<open>AddUnique\<close> calls on the empty set, the set has
  no duplicate handle, its size is the number of distinct handles in \<open>vs\<close>, and
  \<open>Contains x\<close> is true exactly when \<open>x\<close> is one of the handles added.
\<close>

theorem C6_AddUnique_unique:
  "distinct (AddUnique_all [] vs) \<and>
   length (AddUnique_all [] vs) = card (set vs) \<and>
   Contains (AddUnique_all [] vs) x = (x \<in> set vs)"
proof -
  have d: "distinct (AddUnique_all [] vs)"
    by (rule distinct_AddUnique_all) simp
  have "length (AddUnique_all [] vs) = card (set (AddUnique_all [] vs))"
    using d by (simp add: distinct_card)
  then show ?thesis
    using d by (simp add: set_AddUnique_all Contains_set)
qed

theorem C6_witness:
  "AddUnique_all [] [3, 1, 3, 2, 1 :: nat] = [3, 1, 2] \<and>
   length (AddUnique_all [] [3, 1, 3, 2, 1 :: nat]) = card (set [3, 1, 3, 2, 1 :: nat]) \<and>
   Contains (AddUnique_all [] [3, 1, 3, 2, 1 :: nat]) 2 \<and>
   \<not> Contains (AddUnique_all [] [3, 1, 3, 2, 1 :: nat]) 4"
  using C6_AddUnique_unique [of "[3, 1, 3, 2, 1 :: nat]" 2]
    C6_AddUnique_unique [of "[3, 1, 3, 2, 1 :: nat]" 4]
  by (simp add: AddUnique_def)

section \<open>Properties of the registry\<close>

lemma getOrCreate_live:
  "getOrCreate s ssid channel = Inr (s', p) \<Longrightarrow> fmlookup (m s') p \<noteq> None"
  by (auto simp: getOrCreate_def split: sum.splits option.splits)

lemma Increment_absent:
  "GetHashCode ssid = Inr h \<Longrightarrow> fmlookup (m s) h = None \<Longrightarrow>
     Increment s ssid channel =
       Inr (s\<lparr>m := fmupd h \<lparr>Ssid = ssid, Channel = channel, Counter = 1\<rparr> (m s)\<rparr>)"
  by (simp add: Increment_def getOrCreate_def)

lemma Increment_present:
  "GetHashCode ssid = Inr h \<Longrightarrow> fmlookup (m s) h = Some e \<Longrightarrow>
     Increment s ssid channel = Inr (s\<lparr>m := fmupd h (e\<lparr>Counter := Counter e + 1\<rparr>) (m s)\<rparr>)"
  by (simp add: Increment_def getOrCreate_def)

lemma Decrement_absent:
  "GetHashCode ssid = Inr h \<Longrightarrow> fmlookup (m s) h = None \<Longrightarrow> Decrement s ssid = Inr s"
  by (simp add: Decrement_def)

lemma Decrement_present:
  "GetHashCode ssid = Inr h \<Longrightarrow> fmlookup (m s) h = Some e \<Longrightarrow>
     Decrement s ssid =
       Inr (if sint (Counter e - 1) \<le> 0 then s\<lparr>m := fmdrop h (m s)\<rparr>
            else s\<lparr>m := fmupd h (e\<lparr>Counter := Counter e - 1\<rparr>) (m s)\<rparr>)"
  by (simp add: Decrement_def Let_def fmdrop_fmupd_same)

lemma GetHashCode_nonempty: "s \<noteq> [] \<Longrightarrow> \<exists>h. GetHashCode s = Inr h"
  by (cases s) (simp_all add: GetHashCode_def)

lemma Increment_total: "GetHashCode ssid = Inr h \<Longrightarrow> \<exists>s'. Increment s ssid channel = Inr s'"
  by (cases "fmlookup (m s) h") (simp_all add: Increment_absent Increment_present)

lemma Decrement_total: "GetHashCode ssid = Inr h \<Longrightarrow> \<exists>s'. Decrement s ssid = Inr s'"
  by (cases "fmlookup (m s) h") (simp_all add: Decrement_absent Decrement_present)

text \<open>
  C10. \<open>Contract\<close> and \<open>GetHashCode\<close> index element 0 without a guard: they panic
  with an index out of range exactly on the empty Ssid and return a value on every
  non-empty one. \<open>Increment\<close> and \<open>Decrement\<close> call \<open>GetHashCode\<close> and inherit
  the precondition: they panic exactly on the empty Ssid and return on every other.
\<close>

theorem C10_nonempty_precondition:
  "(Contract s = Inl IndexOutOfRange) = (s = []) \<and>
   (\<exists>c. Contract s = Inr c) = (s \<noteq> []) \<and>
   (GetHashCode s = Inl IndexOutOfRange) = (s = []) \<and>
   (\<exists>h. GetHashCode s = Inr h) = (s \<noteq> []) \<and>
   (Increment st s ch = Inl IndexOutOfRange) = (s = []) \<and>
   (\<exists>st'. Increment st s ch = Inr st') = (s \<noteq> []) \<and>
   (Decrement st s = Inl IndexOutOfRange) = (s = []) \<and>
   (\<exists>st'. Decrement st s = Inr st') = (s \<noteq> [])"
proof (cases s)
  case Nil
  then show ?thesis
    by (simp add: Contract_def GetHashCode_def Increment_def getOrCreate_def Decrement_def)
next
  case (Cons c ts)
  then obtain h where h: "GetHashCode s = Inr h"
    using GetHashCode_nonempty [of s] by auto
  obtain s1 where s1: "Increment st s ch = Inr s1"
    using Increment_total [OF h] by blast
  obtain s2 where s2: "Decrement st s = Inr s2"
    using Decrement_total [OF h] by blast
  show ?thesis
    using h s1 s2 by (simp add: Cons Contract_def)
qed

theorem C10_witness:
  "Contract [] = Inl IndexOutOfRange \<and> GetHashCode [] = Inl IndexOutOfRange \<and>
   Increment (NewSubscriptionCounters :: 64 word SubscriptionCounters) [] ''a'' = Inl IndexOutOfRange \<and>
   Decrement (NewSubscriptionCounters :: 64 word SubscriptionCounters) [] = Inl IndexOutOfRange \<and>
   Contract [7, 9] = Inr 7 \<and> GetHashCode [7, 9] = Inr 14 \<and>
   (\<exists>st'. Increment (NewSubscriptionCounters :: 64 word SubscriptionCounters) [7, 9] ''a'' = Inr st') \<and>
   (\<exists>st'. Decrement (NewSubscriptionCounters :: 64 word SubscriptionCounters) [7, 9] = Inr st')"
  using C10_nonempty_precondition [of "[]" "NewSubscriptionCounters :: 64 word SubscriptionCounters" "''a''"]
    C10_nonempty_precondition [of "[7, 9]" "NewSubscriptionCounters :: 64 word SubscriptionCounters" "''a''"]
  by (simp add: Contract_def GetHashCode_def)

lemma set_sorted_list_of_fmap:
  "set (sorted_list_of_fmap M) = {(k, v). fmlookup M k = Some v}"
  by (auto simp: sorted_list_of_fmap_def fmlookup_dom_iff)

lemma set_All_subs:
  "set (All_subs s) =
     {\<lparr>sub_Ssid = Ssid e, sub_Channel = Channel e\<rparr> | k e. fmlookup (m s) k = Some e}"
  by (auto simp: All_subs_def set_sorted_list_of_fmap)

lemma All_subs_fmupd_same_fields:
  assumes "fmlookup (m s) h = Some e" and "Ssid e' = Ssid e" and "Channel e' = Channel e"
  shows "All_subs (s\<lparr>m := fmupd h e' (m s)\<rparr>) = All_subs s"
proof -
  have "h |\<in>| fmdom (m s)"
    using assms(1) by (simp add: fmdomI)
  then have dom: "finsert h (fmdom (m s)) = fmdom (m s)"
    by auto
  show ?thesis
    using assms by (auto simp: All_subs_def sorted_list_of_fmap_def dom)
qed

text \<open>
  C4. If the combined hash of \<open>s\<close> has no entry in the registry, \<open>Decrement s\<close>
  returns without a panic and leaves the registry as it was, so \<open>All\<close> returns the
  same entries before and after.
\<close>

theorem C4_Decrement_absent_noop:
  "GetHashCode s = Inr h \<Longrightarrow> fmlookup (m st) h = None \<Longrightarrow>
     (\<exists>st'. Decrement st s = Inr st' \<and> st' = st \<and> All_subs st' = All_subs st)"
  by (simp add: Decrement_absent)

theorem C4_witness:
  "GetHashCode [1, 42] = Inr 43 \<and>
   fmlookup (m (NewSubscriptionCounters :: 64 word SubscriptionCounters)) 43 = None \<and>
   Decrement (NewSubscriptionCounters :: 64 word SubscriptionCounters) [1, 42] =
     Inr NewSubscriptionCounters \<and>
   All_subs (NewSubscriptionCounters :: 64 word SubscriptionCounters) = []"
proof -
  have h: "GetHashCode [1, 42] = Inr 43"
    by (simp add: GetHashCode_def)
  have a: "fmlookup (m (NewSubscriptionCounters :: 64 word SubscriptionCounters)) 43 = None"
    by (simp add: NewSubscriptionCounters_def)
  have "All_subs (NewSubscriptionCounters :: 64 word SubscriptionCounters) = []"
    by (simp add: All_subs_def NewSubscriptionCounters_def sorted_list_of_fmap_def
        sorted_list_of_fset.rep_eq)
  then show ?thesis
    using C4_Decrement_absent_noop [OF h a] h a by simp
qed

text \<open>
  C9. If the registry holds an entry \<open>e\<close> under the hash of \<open>s2\<close>, then
  \<open>Increment s2 ch2\<close>, whatever \<open>s2\<close> and \<open>ch2\<close> are, only adds one to the count of
  \<open>e\<close>: the Ssid and the channel recorded in the entry stay those of \<open>e\<close>, every
  other entry is untouched, and \<open>All\<close> reports the bucket with the Ssid and channel
  of \<open>e\<close>, as before the call.
\<close>

theorem C9_first_increment_wins:
  assumes "GetHashCode s2 = Inr h" and "fmlookup (m st) h = Some e"
  shows "\<exists>st'. Increment st s2 ch2 = Inr st' \<and>
           fmlookup (m st') h = Some (e\<lparr>Counter := Counter e + 1\<rparr>) \<and>
           (\<forall>e'. fmlookup (m st') h = Some e' \<longrightarrow> Ssid e' = Ssid e \<and> Channel e' = Channel e) \<and>
           (\<forall>k. k \<noteq> h \<longrightarrow> fmlookup (m st') k = fmlookup (m st) k) \<and>
           All_subs st' = All_subs st \<and>
           \<lparr>sub_Ssid = Ssid e, sub_Channel = Channel e\<rparr> \<in> set (All_subs st')"
proof -
  let ?st' = "st\<lparr>m := fmupd h (e\<lparr>Counter := Counter e + 1\<rparr>) (m st)\<rparr>"
  have inc: "Increment st s2 ch2 = Inr ?st'"
    using assms by (rule Increment_present)
  have all: "All_subs ?st' = All_subs st"
    using assms(2) by (rule All_subs_fmupd_same_fields) simp_all
  have "\<lparr>sub_Ssid = Ssid e, sub_Channel = Channel e\<rparr> \<in> set (All_subs st)"
    using assms(2) unfolding set_All_subs by blast
  then show ?thesis
    using inc all by simp
qed

theorem C9_witness:
  "Increment (NewSubscriptionCounters :: 64 word SubscriptionCounters) [1, 2] ''a/b'' =
     Inr \<lparr>m = fmupd 3 \<lparr>Ssid = [1, 2], Channel = ''a/b'', Counter = 1\<rparr> fmempty\<rparr> \<and>
   GetHashCode [2, 1] = Inr 3 \<and>
   fmlookup (m \<lparr>m = fmupd 3 \<lparr>Ssid = [1, 2], Channel = ''a/b'', Counter = 1 :: 64 word\<rparr> fmempty\<rparr>) 3 =
     Some \<lparr>Ssid = [1, 2], Channel = ''a/b'', Counter = 1\<rparr> \<and>
   (\<exists>st'. Increment \<lparr>m = fmupd 3 \<lparr>Ssid = [1, 2], Channel = ''a/b'', Counter = 1 :: 64 word\<rparr> fmempty\<rparr>
            [2, 1] ''c/d'' = Inr st' \<and>
          fmlookup (m st') 3 = Some \<lparr>Ssid = [1, 2], Channel = ''a/b'', Counter = 2\<rparr> \<and>
          All_subs st' = [\<lparr>sub_Ssid = [1, 2], sub_Channel = ''a/b''\<rparr>])"
proof -
  let ?e = "\<lparr>Ssid = [1, 2], Channel = ''a/b'', Counter = 1 :: 64 word\<rparr>"
  let ?st = "\<lparr>m = fmupd 3 ?e fmempty\<rparr>"
  have h: "GetHashCode [2, 1] = Inr 3"
    by (simp add: GetHashCode_def)
  have l: "fmlookup (m ?st) 3 = Some ?e"
    by simp
  have first: "Increment (NewSubscriptionCounters :: 64 word SubscriptionCounters) [1, 2] ''a/b'' = Inr ?st"
    by (simp add: Increment_def getOrCreate_def GetHashCode_def NewSubscriptionCounters_def)
  have a: "All_subs ?st = [\<lparr>sub_Ssid = [1, 2], sub_Channel = ''a/b''\<rparr>]"
    by (simp add: All_subs_def sorted_list_of_fmap_def sorted_list_of_fset.rep_eq)
  show ?thesis
    using C9_first_increment_wins [OF h l, of "''c/d''"] h first a
    by auto
qed

lemma xor_all_mset: "mset xs = mset ys \<Longrightarrow> xor_all xs = xor_all ys"
proof -
  assume eq: "mset xs = mset ys"
  have "fold (XOR) (rev xs) = fold (XOR) (rev ys)"
    by (rule fold_multiset_equiv) (auto simp: eq fun_eq_iff xor.left_commute)
  then show ?thesis
    by (simp add: xor_all_def foldr_conv_fold)
qed

lemma Increment_twice:
  fixes st :: "'w::len word SubscriptionCounters"
  assumes "GetHashCode s1 = Inr h" and "GetHashCode s2 = Inr h" and "fmlookup (m st) h = None"
  shows "\<exists>st1 st2. Increment st s1 ch1 = Inr st1 \<and> Increment st1 s2 ch2 = Inr st2 \<and>
           m st2 = fmupd h \<lparr>Ssid = s1, Channel = ch1, Counter = 1 + 1\<rparr> (m st)"
proof -
  let ?e = "\<lparr>Ssid = s1, Channel = ch1, Counter = 1 :: 'w word\<rparr>"
  let ?st1 = "st\<lparr>m := fmupd h ?e (m st)\<rparr>"
  have 1: "Increment st s1 ch1 = Inr ?st1"
    using assms(1,3) by (rule Increment_absent)
  have "fmlookup (m ?st1) h = Some ?e"
    by simp
  with assms(2) have "Increment ?st1 s2 ch2 = Inr (?st1\<lparr>m := fmupd h (?e\<lparr>Counter := Counter ?e + 1\<rparr>) (m ?st1)\<rparr>)"
    by (rule Increment_present)
  with 1 show ?thesis
    by simp
qed

text \<open>
  C3. The combined hash does not depend on the order of the tokens: if \<open>s\<close> has at
  least two elements and \<open>s'\<close> has the same element 0 and a permutation of the
  remaining elements, then \<open>s'\<close> has the hash of \<open>s\<close>, and the registry counts both
  in one bucket: after \<open>Increment s\<close> and \<open>Increment s'\<close> on a registry without that
  hash, the one entry under the hash carries the Ssid and channel of the first call
  and the count of both. Hence there are two distinct Ssids with the same hash.
\<close>

theorem C3_hash_order_insensitive:
  assumes "2 \<le> length s" and "hd s' = hd s" and "mset (tl s') = mset (tl s)"
  shows "GetHashCode s' = GetHashCode s \<and>
         (\<exists>h. GetHashCode s = Inr h \<and> GetHashCode s' = Inr h \<and>
            (\<forall>(st :: 'w::len word SubscriptionCounters) ch ch'.
               fmlookup (m st) h = None \<longrightarrow>
               (\<exists>st1 st2. Increment st s ch = Inr st1 \<and> Increment st1 s' ch' = Inr st2 \<and>
                  m st2 = fmupd h \<lparr>Ssid = s, Channel = ch, Counter = 1 + 1\<rparr> (m st)))) \<and>
         (\<exists>s1 s2. s1 \<noteq> s2 \<and> (\<exists>h. GetHashCode s1 = Inr h \<and> GetHashCode s2 = Inr h))"
proof -
  from assms(1) obtain c ts where s: "s = c # ts"
    by (cases s) auto
  from assms(1) have ts: "ts \<noteq> []"
    by (auto simp: s)
  from assms(3) ts have "tl s' \<noteq> []"
    by (auto simp: s)
  then obtain c' ts' where s': "s' = c' # ts'"
    by (cases s') auto
  have c: "c' = c" and m: "mset ts' = mset ts"
    using assms(2,3) by (simp_all add: s s')
  have "mset (c' # ts') = mset (c # ts)"
    by (simp add: c m)
  then have x: "xor_all s' = xor_all s"
    unfolding s s' by (rule xor_all_mset)
  have hs: "GetHashCode s = Inr (xor_all s)" and hs': "GetHashCode s' = Inr (xor_all s)"
    using x by (simp_all add: s s' GetHashCode_Cons)
  have reg: "\<exists>st1 st2. Increment st s ch = Inr st1 \<and> Increment st1 s' ch' = Inr st2 \<and>
      m st2 = fmupd (xor_all s) \<lparr>Ssid = s, Channel = ch, Counter = 1 + 1\<rparr> (m st)"
    if "fmlookup (m st) (xor_all s) = None"
    for st :: "'w word SubscriptionCounters" and ch ch'
    using hs hs' that by (rule Increment_twice)
  have ex: "\<exists>s1 s2. s1 \<noteq> s2 \<and> (\<exists>h. GetHashCode s1 = Inr h \<and> GetHashCode s2 = Inr h)"
    by (rule exI [of _ "[1, 2, 3]"], rule exI [of _ "[1, 3, 2]"]) (simp add: GetHashCode_def)
  show ?thesis
  proof (intro conjI)
    show "GetHashCode s' = GetHashCode s"
      by (simp only: hs hs')
    show "\<exists>h. GetHashCode s = Inr h \<and> GetHashCode s' = Inr h \<and>
            (\<forall>(st :: 'w word SubscriptionCounters) ch ch'.
               fmlookup (m st) h = None \<longrightarrow>
               (\<exists>st1 st2. Increment st s ch = Inr st1 \<and> Increment st1 s' ch' = Inr st2 \<and>
                  m st2 = fmupd h \<lparr>Ssid = s, Channel = ch, Counter = 1 + 1\<rparr> (m st)))"
      using hs hs' reg by blast
    show "\<exists>s1 s2. s1 \<noteq> s2 \<and> (\<exists>h. GetHashCode s1 = Inr h \<and> GetHashCode s2 = Inr h)"
      by (rule ex)
  qed
qed

theorem C3_witness:
  "2 \<le> length [1, 2, 3 :: u32] \<and> hd [1, 3, 2 :: u32] = hd [1, 2, 3] \<and>
   mset (tl [1, 3, 2 :: u32]) = mset (tl [1, 2, 3]) \<and>
   GetHashCode [1, 3, 2] = GetHashCode [1, 2, 3] \<and> GetHashCode [1, 2, 3] = Inr 0 \<and>
   [1, 3, 2] \<noteq> [1, 2, 3 :: u32] \<and>
   (\<exists>st1 st2. Increment (NewSubscriptionCounters :: 64 word SubscriptionCounters) [1, 2, 3] ''a/b'' = Inr st1 \<and>
      Increment st1 [1, 3, 2] ''b/a'' = Inr st2 \<and>
      m st2 = fmupd 0 \<lparr>Ssid = [1, 2, 3], Channel = ''a/b'', Counter = 2\<rparr> fmempty)"
proof -
  have a: "2 \<le> length [1, 2, 3 :: u32]" and b: "hd [1, 3, 2 :: u32] = hd [1, 2, 3]"
    by simp_all
  have c: "mset (tl [1, 3, 2 :: u32]) = mset (tl [1, 2, 3])"
    by (simp add: add_mset_commute)
  have h: "GetHashCode [1, 2, 3] = Inr 0"
    by (simp add: GetHashCode_def)
  have e: "fmlookup (m (NewSubscriptionCounters :: 64 word SubscriptionCounters)) 0 = None"
    by (simp add: NewSubscriptionCounters_def)
  let ?new = "NewSubscriptionCounters :: 64 word SubscriptionCounters"
  from C3_hash_order_insensitive [OF a b c, where ?'w = 64]
  obtain h' where h': "GetHashCode [1, 2, 3] = Inr h'"
    and reg: "\<forall>(st :: 64 word SubscriptionCounters) ch ch'.
       fmlookup (m st) h' = None \<longrightarrow>
       (\<exists>st1 st2. Increment st [1, 2, 3] ch = Inr st1 \<and> Increment st1 [1, 3, 2] ch' = Inr st2 \<and>
          m st2 = fmupd h' \<lparr>Ssid = [1, 2, 3], Channel = ch, Counter = 1 + 1\<rparr> (m st))"
    by blast
  have "h' = 0"
    using h h' by simp
  with reg [rule_format, of ?new "''a/b''" "''b/a''"] e
  have "\<exists>st1 st2. Increment ?new [1, 2, 3] ''a/b'' = Inr st1 \<and>
      Increment st1 [1, 3, 2] ''b/a'' = Inr st2 \<and>
      m st2 = fmupd 0 \<lparr>Ssid = [1, 2, 3], Channel = ''a/b'', Counter = 2\<rparr> fmempty"
    by (simp add: NewSubscriptionCounters_def)
  then show ?thesis
    using a b c h C3_hash_order_insensitive [OF a b c, where ?'w = 64] by simp
qed

section \<open>Arithmetic of the counter\<close>

lemma sint_of_nat_small:
  "i < 2 ^ (LENGTH('w::len) - 1) \<Longrightarrow> sint (of_nat i :: 'w word) = int i"
proof -
  assume "i < 2 ^ (LENGTH('w) - 1)"
  then have "int i < 2 ^ (LENGTH('w) - 1)"
    by (metis of_nat_less_iff of_nat_numeral of_nat_power)
  moreover have "- (2 ^ (LENGTH('w) - 1)) \<le> int i"
    by (rule order_trans [of _ 0]) simp_all
  ultimately have "signed_take_bit (LENGTH('w) - 1) (int i) = int i"
    by (intro signed_take_bit_int_eq_self)
  moreover have "sint (of_nat i :: 'w word) = signed_take_bit (LENGTH('w) - 1) (int i)"
    by (simp add: signed_of_nat)
  ultimately show ?thesis
    by simp
qed





section \<open>Sequences of calls\<close>

lemma run_append:
  "run s (xs @ ys) = (case run s xs of Inl e \<Rightarrow> Inl e | Inr s' \<Rightarrow> run s' ys)"
  by (induction xs arbitrary: s) (auto split: sum.splits)

lemma run_snoc:
  "run s xs = Inr s' \<Longrightarrow> run s (xs @ [c]) = step s' c"
  by (simp add: run_append split: sum.splits)

lemma replicate_snoc: "replicate (Suc n) x = replicate n x @ [x]"
  by (simp add: replicate_append_same)

lemma run_Increments:
  fixes s :: "'w::len word SubscriptionCounters"
  assumes "GetHashCode ssid = Inr h" and "fmlookup (m s) h = None"
  shows "run s (replicate (Suc n) (CallIncrement ssid ch)) =
           Inr (s\<lparr>m := fmupd h \<lparr>Ssid = ssid, Channel = ch, Counter = of_nat (Suc n)\<rparr> (m s)\<rparr>)"
proof (induction n)
  case 0
  show ?case
    using assms by (simp add: Increment_absent)
next
  case (Suc n)
  let ?e = "\<lparr>Ssid = ssid, Channel = ch, Counter = of_nat (Suc n) :: 'w word\<rparr>"
  let ?s = "s\<lparr>m := fmupd h ?e (m s)\<rparr>"
  have "run s (replicate (Suc (Suc n)) (CallIncrement ssid ch)) =
      run s (replicate (Suc n) (CallIncrement ssid ch) @ [CallIncrement ssid ch])"
    by (simp only: replicate_snoc [of "Suc n"])
  also have "\<dots> = step ?s (CallIncrement ssid ch)"
    using Suc.IH by (rule run_snoc)
  also have "\<dots> = Increment ?s ssid ch"
    by simp
  also have "\<dots> = Inr (?s\<lparr>m := fmupd h (?e\<lparr>Counter := Counter ?e + 1\<rparr>) (m ?s)\<rparr>)"
    using assms(1) by (rule Increment_present) simp
  finally show ?case
    by (simp add: add.commute)
qed

lemma run_Decrements_keep:
  fixes s :: "'w::len word SubscriptionCounters"
  assumes "GetHashCode ssid = Inr h" and "j < 2 ^ (LENGTH('w) - 1)"
  shows "k < j \<Longrightarrow>
     run (s\<lparr>m := fmupd h \<lparr>Ssid = a, Channel = ch, Counter = of_nat j\<rparr> M\<rparr>)
         (replicate k (CallDecrement ssid)) =
       Inr (s\<lparr>m := fmupd h \<lparr>Ssid = a, Channel = ch, Counter = of_nat (j - k)\<rparr> M\<rparr>)"
proof (induction k)
  case 0
  show ?case by simp
next
  case (Suc k)
  let ?e = "\<lparr>Ssid = a, Channel = ch, Counter = of_nat (j - k) :: 'w word\<rparr>"
  let ?start = "s\<lparr>m := fmupd h \<lparr>Ssid = a, Channel = ch, Counter = of_nat j\<rparr> M\<rparr>"
  let ?s = "s\<lparr>m := fmupd h ?e M\<rparr>"
  from Suc.prems have k: "k < j" and pos: "0 < j - Suc k" and small: "j - Suc k < 2 ^ (LENGTH('w) - 1)"
    using assms(2) by auto
  have "j - k = Suc (j - Suc k)"
    using Suc.prems by arith
  then have dec: "Counter ?e - 1 = of_nat (j - Suc k)"
    by simp
  have "sint (of_nat (j - Suc k) :: 'w word) = int (j - Suc k)"
    using small by (rule sint_of_nat_small)
  then have keep: "\<not> sint (Counter ?e - 1) \<le> 0"
    unfolding dec using pos by linarith
  have "run ?start (replicate (Suc k) (CallDecrement ssid)) =
      run ?start (replicate k (CallDecrement ssid) @ [CallDecrement ssid])"
    by (simp only: replicate_snoc [of k])
  also have "\<dots> = step ?s (CallDecrement ssid)"
    using Suc.IH [OF k] by (rule run_snoc)
  also have "\<dots> = Decrement ?s ssid"
    by simp
  also have "\<dots> = Inr (if sint (Counter ?e - 1) \<le> 0 then ?s\<lparr>m := fmdrop h (m ?s)\<rparr>
       else ?s\<lparr>m := fmupd h (?e\<lparr>Counter := Counter ?e - 1\<rparr>) (m ?s)\<rparr>)"
    using assms(1) by (rule Decrement_present) simp
  also have "\<dots> = Inr (?s\<lparr>m := fmupd h (?e\<lparr>Counter := Counter ?e - 1\<rparr>) (m ?s)\<rparr>)"
    using keep by (simp only: if_False)
  also have "\<dots> = Inr (s\<lparr>m := fmupd h \<lparr>Ssid = a, Channel = ch, Counter = of_nat (j - Suc k)\<rparr> M\<rparr>)"
    unfolding dec by simp
  finally show ?case .
qed

lemma run_Decrements_absent:
  "GetHashCode ssid = Inr h \<Longrightarrow> fmlookup (m s) h = None \<Longrightarrow>
     run s (replicate k (CallDecrement ssid)) = Inr s"
  by (induction k) (simp_all add: Decrement_absent)

lemma fmupd_absent_restore:
  "fmlookup M h = None \<Longrightarrow> fmdrop h (fmupd h e M) = M"
  by (simp add: fmdrop_fmupd_same fmdrop_idle fmdom_notI)

lemma keyed_not_in_All:
  assumes "keyed s" and "GetHashCode ssid = Inr h" and "fmlookup (m s) h = None"
  shows "\<forall>x \<in> set (All_subs s). sub_Ssid x \<noteq> ssid"
proof
  fix x
  assume "x \<in> set (All_subs s)"
  then obtain k e where e: "fmlookup (m s) k = Some e" and x: "sub_Ssid x = Ssid e"
    unfolding set_All_subs by auto
  from assms(1) e have "GetHashCode (Ssid e) = Inr k"
    unfolding keyed_def by (rule fmpredD)
  with assms(2,3) e show "sub_Ssid x \<noteq> ssid"
    using x by auto
qed

text \<open>
  C1, within the range of the counter. Let \<open>s\<close> be an Ssid with hash \<open>h\<close>, absent
  from the registry, and \<open>1 \<le> N < 2 ^ (w - 1)\<close>, where \<open>w\<close> is the width of the Go
  \<open>int\<close>. Then \<open>N\<close> calls of \<open>Increment s ch\<close> followed by \<open>N - 1\<close> calls of
  \<open>Decrement s\<close> return a registry that is the initial one with one more entry,
  under \<open>h\<close>, of Ssid \<open>s\<close>, channel \<open>ch\<close> and count 1. One more \<open>Decrement s\<close>
  returns the initial registry, where \<open>h\<close> has no entry; when every entry of it is
  stored under the hash of its Ssid, no subscription returned by \<open>All\<close> has the
  Ssid \<open>s\<close>.
\<close>

theorem C1_reference_counting:
  fixes st :: "'w::len word SubscriptionCounters"
  assumes "GetHashCode s = Inr h" and "fmlookup (m st) h = None"
    and "1 \<le> N" and "N < 2 ^ (LENGTH('w) - 1)"
  shows "\<exists>st1. run st (replicate N (CallIncrement s ch) @ replicate (N - 1) (CallDecrement s)) = Inr st1 \<and>
           m st1 = fmupd h \<lparr>Ssid = s, Channel = ch, Counter = 1\<rparr> (m st) \<and>
           fmlookup (m st1) h = Some \<lparr>Ssid = s, Channel = ch, Counter = 1\<rparr> \<and>
           Decrement st1 s = Inr st \<and>
           (keyed st \<longrightarrow> (\<forall>x \<in> set (All_subs st). sub_Ssid x \<noteq> s))"
proof -
  from assms(3) obtain n where N: "N = Suc n"
    by (cases N) auto
  let ?e = "\<lambda>j. \<lparr>Ssid = s, Channel = ch, Counter = of_nat j :: 'w word\<rparr>"
  let ?s = "\<lambda>j. st\<lparr>m := fmupd h (?e j) (m st)\<rparr>"
  have incs: "run st (replicate N (CallIncrement s ch)) = Inr (?s N)"
    unfolding N using assms(1,2) by (rule run_Increments)
  have one: "N - (N - 1) = 1"
    using assms(3) by simp
  have "N - 1 < N"
    using assms(3) by simp
  with assms(1,4)
  have decs: "run (?s N) (replicate (N - 1) (CallDecrement s)) = Inr (?s (N - (N - 1)))"
    by (rule run_Decrements_keep)
  have both: "run st (replicate N (CallIncrement s ch) @ replicate (N - 1) (CallDecrement s)) = Inr (?s 1)"
    by (simp only: run_append incs decs sum.case one)
  have "Decrement (?s 1) s =
      Inr (if sint (Counter (?e 1) - 1) \<le> 0 then (?s 1)\<lparr>m := fmdrop h (m (?s 1))\<rparr>
           else (?s 1)\<lparr>m := fmupd h ((?e 1)\<lparr>Counter := Counter (?e 1) - 1\<rparr>) (m (?s 1))\<rparr>)"
    using assms(1) by (rule Decrement_present) simp
  then have last: "Decrement (?s 1) s = Inr st"
    using assms(2) by (simp add: fmupd_absent_restore)
  have "keyed st \<longrightarrow> (\<forall>x \<in> set (All_subs st). sub_Ssid x \<noteq> s)"
    using keyed_not_in_All [OF _ assms(1,2)] by blast
  then show ?thesis
    using both last by simp
qed

theorem C1_witness:
  "GetHashCode [1, 42] = Inr 43 \<and>
   fmlookup (m (NewSubscriptionCounters :: 64 word SubscriptionCounters)) 43 = None \<and>
   (1::nat) \<le> 2 \<and> (2::nat) < 2 ^ (LENGTH(64) - 1) \<and>
   (\<exists>st1. run (NewSubscriptionCounters :: 64 word SubscriptionCounters)
            (replicate 2 (CallIncrement [1, 42] ''a/b'') @ replicate (2 - 1) (CallDecrement [1, 42])) =
            Inr st1 \<and>
          m st1 = fmupd 43 \<lparr>Ssid = [1, 42], Channel = ''a/b'', Counter = 1\<rparr> fmempty \<and>
          Decrement st1 [1, 42] = Inr NewSubscriptionCounters)"
proof -
  let ?new = "NewSubscriptionCounters :: 64 word SubscriptionCounters"
  have h: "GetHashCode [1, 42] = Inr 43"
    by (simp add: GetHashCode_def)
  have a: "fmlookup (m ?new) 43 = None"
    by (simp add: NewSubscriptionCounters_def)
  have n: "(1::nat) \<le> 2" and b: "(2::nat) < 2 ^ (LENGTH(64) - 1)"
    by simp_all
  have e: "m ?new = fmempty"
    by (simp add: NewSubscriptionCounters_def)
  show ?thesis
    using C1_reference_counting [OF h a n b, of "''a/b''"] h a e
    by auto
qed

lemma run_wrap:
  fixes st :: "'w::len word SubscriptionCounters"
  assumes "GetHashCode s = Inr h" and "fmlookup (m st) h = None"
    and "sint (of_nat (Suc n) - 1 :: 'w word) \<le> 0"
  shows "run st (replicate (Suc n) (CallIncrement s ch) @ replicate (Suc k) (CallDecrement s)) = Inr st"
proof -
  let ?e = "\<lparr>Ssid = s, Channel = ch, Counter = of_nat (Suc n) :: 'w word\<rparr>"
  let ?s = "st\<lparr>m := fmupd h ?e (m st)\<rparr>"
  have incs: "run st (replicate (Suc n) (CallIncrement s ch)) = Inr ?s"
    using assms(1,2) by (rule run_Increments)
  have "Decrement ?s s =
      Inr (if sint (Counter ?e - 1) \<le> 0 then ?s\<lparr>m := fmdrop h (m ?s)\<rparr>
           else ?s\<lparr>m := fmupd h (?e\<lparr>Counter := Counter ?e - 1\<rparr>) (m ?s)\<rparr>)"
    using assms(1) by (rule Decrement_present) simp
  also have "\<dots> = Inr (?s\<lparr>m := fmdrop h (m ?s)\<rparr>)"
    using assms(3) by simp
  also have "\<dots> = Inr st"
    using assms(2) by (simp add: fmupd_absent_restore)
  finally have first: "Decrement ?s s = Inr st" .
  have rest: "run st (replicate k (CallDecrement s)) = Inr st"
    using assms(1,2) by (rule run_Decrements_absent)
  have "run ?s (replicate (Suc k) (CallDecrement s)) = Inr st"
    by (simp only: replicate_Suc run.simps step.simps first sum.case rest)
  then show ?thesis
    by (simp only: run_append incs sum.case)
qed

text \<open>
  C1 as stated, for every \<open>N \<ge> 1\<close>, fails where the counter wraps around. With a
  64-bit \<open>int\<close> and \<open>N = 2 ^ 63 + 1\<close>, the \<open>N\<close> increments leave the counter at
  \<open>- (2 ^ 63) + 1\<close>; the first \<open>Decrement\<close> makes it \<open>- (2 ^ 63)\<close>, which is
  \<open>\<le> 0\<close>, and deletes the entry, and the other decrements find no entry. After the
  \<open>N - 1\<close> decrements the hash has no entry, where C1 states one of count 1.
  The same happens with a 32-bit \<open>int\<close> at \<open>N = 2 ^ 31 + 1\<close>.
\<close>

theorem C1_counterexample:
  "(case run (NewSubscriptionCounters :: 64 word SubscriptionCounters)
          (replicate (2 ^ 63 + 1) (CallIncrement [1] ''a'') @
           replicate (2 ^ 63 + 1 - 1) (CallDecrement [1])) of
      Inl e \<Rightarrow> False
    | Inr st1 \<Rightarrow> fmlookup (m st1) 1 = None) \<and>
   (case run (NewSubscriptionCounters :: 32 word SubscriptionCounters)
          (replicate (2 ^ 31 + 1) (CallIncrement [1] ''a'') @
           replicate (2 ^ 31 + 1 - 1) (CallDecrement [1])) of
      Inl e \<Rightarrow> False
    | Inr st1 \<Rightarrow> fmlookup (m st1) 1 = None)"
proof -
  have h: "GetHashCode [1] = Inr 1"
    by (simp add: GetHashCode_def)
  have a: "fmlookup (m (NewSubscriptionCounters :: 'w::len word SubscriptionCounters)) 1 = None"
    by (simp add: NewSubscriptionCounters_def)
  have n64: "(2 ^ 63 + 1 :: nat) = Suc (2 ^ 63)" and k64: "(Suc (2 ^ 63) - 1 :: nat) = Suc (2 ^ 63 - 1)"
    by simp_all
  have n32: "(2 ^ 31 + 1 :: nat) = Suc (2 ^ 31)" and k32: "(Suc (2 ^ 31) - 1 :: nat) = Suc (2 ^ 31 - 1)"
    by simp_all
  have w64: "sint (of_nat (Suc (2 ^ 63)) - 1 :: 64 word) \<le> 0"
    by simp
  have w32: "sint (of_nat (Suc (2 ^ 31)) - 1 :: 32 word) \<le> 0"
    by simp
  have r64: "run (NewSubscriptionCounters :: 64 word SubscriptionCounters)
      (replicate (2 ^ 63 + 1) (CallIncrement [1] ''a'') @
       replicate (2 ^ 63 + 1 - 1) (CallDecrement [1])) = Inr NewSubscriptionCounters"
    unfolding n64 k64 using h a w64 by (rule run_wrap)
  have r32: "run (NewSubscriptionCounters :: 32 word SubscriptionCounters)
      (replicate (2 ^ 31 + 1) (CallIncrement [1] ''a'') @
       replicate (2 ^ 31 + 1 - 1) (CallDecrement [1])) = Inr NewSubscriptionCounters"
    unfolding n32 k32 using h a w32 by (rule run_wrap)
  show ?thesis
    unfolding r64 r32 by (simp add: NewSubscriptionCounters_def)
qed

lemma keyed_New: "keyed NewSubscriptionCounters"
  by (simp add: keyed_def NewSubscriptionCounters_def)

lemma keyed_upd:
  "keyed s \<Longrightarrow> GetHashCode (Ssid e) = Inr h \<Longrightarrow> keyed (s\<lparr>m := fmupd h e (m s)\<rparr>)"
  by (simp add: keyed_def fmpred_upd)

lemma keyed_drop: "keyed s \<Longrightarrow> keyed (s\<lparr>m := fmdrop h (m s)\<rparr>)"
  by (simp add: keyed_def fmpred_drop)

lemma keyed_step: "keyed s \<Longrightarrow> step s c = Inr s' \<Longrightarrow> keyed s'"
proof (cases c)
  case (CallIncrement ssid ch)
  assume k: "keyed s" and st: "step s c = Inr s'"
  from st obtain h where h: "GetHashCode ssid = Inr h"
    by (cases "GetHashCode ssid") (simp_all add: CallIncrement Increment_def getOrCreate_def)
  show ?thesis
  proof (cases "fmlookup (m s) h")
    case None
    with st h k show ?thesis
      by (auto simp: CallIncrement Increment_absent intro: keyed_upd)
  next
    case (Some e)
    with k have "GetHashCode (Ssid e) = Inr h"
      unfolding keyed_def by auto
    with st h k Some show ?thesis
      by (auto simp: CallIncrement Increment_present intro: keyed_upd)
  qed
next
  case (CallDecrement ssid)
  assume k: "keyed s" and st: "step s c = Inr s'"
  from st obtain h where h: "GetHashCode ssid = Inr h"
    by (cases "GetHashCode ssid") (simp_all add: CallDecrement Decrement_def)
  show ?thesis
  proof (cases "fmlookup (m s) h")
    case None
    with st h k show ?thesis
      by (simp add: CallDecrement Decrement_absent)
  next
    case (Some e)
    with k have "GetHashCode (Ssid e) = Inr h"
      unfolding keyed_def by auto
    with st h k Some show ?thesis
      by (auto simp: CallDecrement Decrement_present split: if_splits intro: keyed_upd keyed_drop)
  qed
next
  case CallAll
  then show "keyed s \<Longrightarrow> step s c = Inr s' \<Longrightarrow> keyed s'"
    by simp
qed

lemma keyed_run: "keyed s \<Longrightarrow> run s cs = Inr s' \<Longrightarrow> keyed s'"
proof (induction cs arbitrary: s)
  case Nil
  then show ?case by simp
next
  case (Cons c cs)
  from Cons.prems(2) obtain s1 where s1: "step s c = Inr s1" and rest: "run s1 cs = Inr s'"
    by (auto split: sum.splits)
  from Cons.prems(1) s1 have "keyed s1"
    by (rule keyed_step)
  then show ?case
    using rest by (rule Cons.IH)
qed







lemma run_recover_run: "run s cs = Inr s' \<Longrightarrow> run_recover s cs = s'"
  by (induction cs arbitrary: s) (auto split: sum.splits)





section \<open>Properties of the registry in the store\<close>

lemma words_Increment_st: "Increment_st S ssid ch = Inr S' \<Longrightarrow> words S' = words S"
  by (auto simp: Increment_st_def getOrCreate_st_def Let_def split: sum.splits option.splits)

lemma words_Decrement_st: "Decrement_st S ssid = Inr S' \<Longrightarrow> words S' = words S"
  by (auto simp: Decrement_st_def Let_def split: sum.splits option.splits if_splits)





lemma registry_eqI:
  fixes a b :: "'int SubscriptionCounters"
  assumes "\<And>k. fmlookup (m a) k = fmlookup (m b) k"
  shows "a = b"
proof -
  have "m a = m b"
    using assms by (rule fmap_ext)
  then show ?thesis
    by simp
qed

lemma lookup_abs_registry:
  "fmlookup (m (abs_registry S)) k =
     map_option (\<lambda>p. abs_meter (words S) (the (objects S p))) (fmlookup (table S) k)"
  by (simp add: abs_registry_def)

lemma wf_storeD:
  assumes "wf_store S" and "fmlookup (table S) k = Some p"
  shows "p < lim S" and "\<exists>obj. objects S p = Some obj"
    and "fmlookup (table S) k' = Some p \<Longrightarrow> k' = k"
  using assms unfolding wf_store_def fmpred_iff by blast+

lemma Increment_st_absent:
  assumes "GetHashCode (elems (words S) sl) = Inr h" and "fmlookup (table S) h = None"
  shows "Increment_st S sl ch =
     Inr (S\<lparr>objects := (objects S)(lim S \<mapsto> \<lparr>obj_Ssid = sl, obj_Channel = ch, obj_Counter = 1\<rparr>),
            lim := Suc (lim S), table := fmupd h (lim S) (table S)\<rparr>)"
  using assms by (simp add: Increment_st_def getOrCreate_st_def Let_def)

lemma Increment_st_present:
  assumes "GetHashCode (elems (words S) sl) = Inr h" and "fmlookup (table S) h = Some p"
    and "objects S p = Some obj"
  shows "Increment_st S sl ch =
     Inr (S\<lparr>objects := (objects S)(p \<mapsto> obj\<lparr>obj_Counter := obj_Counter obj + 1\<rparr>)\<rparr>)"
  using assms by (simp add: Increment_st_def getOrCreate_st_def)

lemma Decrement_st_absent:
  assumes "GetHashCode (elems (words S) sl) = Inr h" and "fmlookup (table S) h = None"
  shows "Decrement_st S sl = Inr S"
  using assms by (simp add: Decrement_st_def)

lemma Decrement_st_present:
  assumes "GetHashCode (elems (words S) sl) = Inr h" and "fmlookup (table S) h = Some p"
    and "objects S p = Some obj"
  shows "Decrement_st S sl =
     Inr (if sint (obj_Counter obj - 1) \<le> 0
          then S\<lparr>objects := (objects S)(p \<mapsto> obj\<lparr>obj_Counter := obj_Counter obj - 1\<rparr>),
                 table := fmdrop h (table S)\<rparr>
          else S\<lparr>objects := (objects S)(p \<mapsto> obj\<lparr>obj_Counter := obj_Counter obj - 1\<rparr>)\<rparr>)"
  using assms by (simp add: Decrement_st_def Let_def)

lemma Increment_st_refines:
  fixes S :: "'w::len word store"
  assumes wf: "wf_store S"
  shows "case Increment_st S sl ch of
           Inl e \<Rightarrow> Increment (abs_registry S) (elems (words S) sl) ch = Inl e
         | Inr S' \<Rightarrow> wf_store S' \<and>
             Increment (abs_registry S) (elems (words S) sl) ch = Inr (abs_registry S')"
proof (cases "GetHashCode (elems (words S) sl)")
  case (Inl e)
  then show ?thesis
    by (simp add: Increment_st_def getOrCreate_st_def Increment_def getOrCreate_def)
next
  case (Inr h)
  show ?thesis
  proof (cases "fmlookup (table S) h")
    case None
    let ?obj = "\<lparr>obj_Ssid = sl, obj_Channel = ch, obj_Counter = 1 :: 'w word\<rparr>"
    let ?S' = "S\<lparr>objects := (objects S)(lim S \<mapsto> ?obj), lim := Suc (lim S),
                  table := fmupd h (lim S) (table S)\<rparr>"
    have st: "Increment_st S sl ch = Inr ?S'"
      using Inr None by (rule Increment_st_absent)
    have old: "p < lim S" if "fmlookup (table S) k = Some p" for k p
      using wf that by (rule wf_storeD)
    have alloc: "p < lim ?S' \<and> objects ?S' p \<noteq> None" if "fmlookup (table ?S') k = Some p" for k p
    proof -
      from that have "p = lim S \<or> fmlookup (table S) k = Some p"
        by (auto split: if_splits)
      then show ?thesis
        using wf_storeD(1,2) [OF wf] by (auto simp: less_Suc_eq)
    qed
    have inj: "k = k'"
      if "fmlookup (table ?S') k = Some p \<and> fmlookup (table ?S') k' = Some p" for k k' p
      using that old wf_storeD(3) [OF wf] by (auto split: if_splits)
    have wf': "wf_store ?S'"
      unfolding wf_store_def fmpred_iff using alloc inj by blast
    have "fmlookup (m (abs_registry S)) h = None"
      using None by (simp add: lookup_abs_registry)
    with Inr have "Increment (abs_registry S) (elems (words S) sl) ch =
        Inr ((abs_registry S)\<lparr>m := fmupd h \<lparr>Ssid = elems (words S) sl, Channel = ch, Counter = 1\<rparr>
               (m (abs_registry S))\<rparr>)"
      by (rule Increment_absent)
    also have "(abs_registry S)\<lparr>m := fmupd h \<lparr>Ssid = elems (words S) sl, Channel = ch, Counter = 1\<rparr>
               (m (abs_registry S))\<rparr> = abs_registry ?S'"
    proof (rule registry_eqI)
      fix k
      show "fmlookup (m ((abs_registry S)\<lparr>m := fmupd h \<lparr>Ssid = elems (words S) sl, Channel = ch, Counter = 1\<rparr>
               (m (abs_registry S))\<rparr>)) k = fmlookup (m (abs_registry ?S')) k"
        using old [of k] by (cases "fmlookup (table S) k") (auto simp: lookup_abs_registry abs_meter_def)
    qed
    finally show ?thesis
      using wf' by (simp add: st)
  next
    case (Some p)
    from wf Some obtain obj where obj: "objects S p = Some obj"
      using wf_storeD(2) by blast
    let ?obj = "obj\<lparr>obj_Counter := obj_Counter obj + 1\<rparr>"
    let ?S' = "S\<lparr>objects := (objects S)(p \<mapsto> ?obj)\<rparr>"
    have st: "Increment_st S sl ch = Inr ?S'"
      using Inr Some obj by (rule Increment_st_present)
    have wf': "wf_store ?S'"
      using wf unfolding wf_store_def fmpred_iff by auto
    have "fmlookup (m (abs_registry S)) h = Some (abs_meter (words S) obj)"
      using Some obj by (simp add: lookup_abs_registry)
    with Inr have "Increment (abs_registry S) (elems (words S) sl) ch =
        Inr ((abs_registry S)\<lparr>m := fmupd h ((abs_meter (words S) obj)\<lparr>Counter := Counter (abs_meter (words S) obj) + 1\<rparr>)
               (m (abs_registry S))\<rparr>)"
      by (rule Increment_present)
    also have "(abs_registry S)\<lparr>m := fmupd h ((abs_meter (words S) obj)\<lparr>Counter := Counter (abs_meter (words S) obj) + 1\<rparr>)
               (m (abs_registry S))\<rparr> = abs_registry ?S'"
    proof (rule registry_eqI)
      fix k
      have "q \<noteq> p" if "fmlookup (table S) k = Some q" and "k \<noteq> h" for q
        using wf_storeD(3) [OF wf Some, of k] that by auto
      then show "fmlookup (m ((abs_registry S)\<lparr>m := fmupd h ((abs_meter (words S) obj)\<lparr>Counter := Counter (abs_meter (words S) obj) + 1\<rparr>)
               (m (abs_registry S))\<rparr>)) k = fmlookup (m (abs_registry ?S')) k"
        using Some by (cases "fmlookup (table S) k") (auto simp: lookup_abs_registry abs_meter_def)
    qed
    finally show ?thesis
      using wf' by (simp add: st)
  qed
qed

lemma Decrement_st_refines:
  fixes S :: "'w::len word store"
  assumes wf: "wf_store S"
  shows "case Decrement_st S sl of
           Inl e \<Rightarrow> Decrement (abs_registry S) (elems (words S) sl) = Inl e
         | Inr S' \<Rightarrow> wf_store S' \<and>
             Decrement (abs_registry S) (elems (words S) sl) = Inr (abs_registry S')"
proof (cases "GetHashCode (elems (words S) sl)")
  case (Inl e)
  then show ?thesis
    by (simp add: Decrement_st_def Decrement_def)
next
  case (Inr h)
  show ?thesis
  proof (cases "fmlookup (table S) h")
    case None
    have "fmlookup (m (abs_registry S)) h = None"
      using None by (simp add: lookup_abs_registry)
    with Inr have "Decrement (abs_registry S) (elems (words S) sl) = Inr (abs_registry S)"
      by (rule Decrement_absent)
    then show ?thesis
      using wf by (simp add: Decrement_st_absent [OF Inr None])
  next
    case (Some p)
    from wf Some obtain obj where obj: "objects S p = Some obj"
      using wf_storeD(2) by blast
    let ?obj = "obj\<lparr>obj_Counter := obj_Counter obj - 1\<rparr>"
    let ?keep = "S\<lparr>objects := (objects S)(p \<mapsto> ?obj)\<rparr>"
    let ?drop = "S\<lparr>objects := (objects S)(p \<mapsto> ?obj), table := fmdrop h (table S)\<rparr>"
    let ?e = "abs_meter (words S) obj"
    have st: "Decrement_st S sl = Inr (if sint (obj_Counter obj - 1) \<le> 0 then ?drop else ?keep)"
      using Inr Some obj by (rule Decrement_st_present)
    have other: "q \<noteq> p" if "fmlookup (table S) k = Some q" and "k \<noteq> h" for q k
      using wf_storeD(3) [OF wf Some, of k] that by auto
    have wf_keep: "wf_store ?keep"
      using wf unfolding wf_store_def fmpred_iff by auto
    have wf_drop: "wf_store ?drop"
      using wf unfolding wf_store_def fmpred_iff by (auto split: if_splits)
    have "fmlookup (m (abs_registry S)) h = Some ?e"
      using Some obj by (simp add: lookup_abs_registry)
    with Inr have abs: "Decrement (abs_registry S) (elems (words S) sl) =
        Inr (if sint (Counter ?e - 1) \<le> 0 then (abs_registry S)\<lparr>m := fmdrop h (m (abs_registry S))\<rparr>
             else (abs_registry S)\<lparr>m := fmupd h (?e\<lparr>Counter := Counter ?e - 1\<rparr>) (m (abs_registry S))\<rparr>)"
      by (rule Decrement_present)
    have keep: "(abs_registry S)\<lparr>m := fmupd h (?e\<lparr>Counter := Counter ?e - 1\<rparr>) (m (abs_registry S))\<rparr> =
        abs_registry ?keep"
    proof (rule registry_eqI)
      fix k
      show "fmlookup (m ((abs_registry S)\<lparr>m := fmupd h (?e\<lparr>Counter := Counter ?e - 1\<rparr>) (m (abs_registry S))\<rparr>)) k =
          fmlookup (m (abs_registry ?keep)) k"
        using Some other [of k]
        by (cases "fmlookup (table S) k") (auto simp: lookup_abs_registry abs_meter_def)
    qed
    have drop: "(abs_registry S)\<lparr>m := fmdrop h (m (abs_registry S))\<rparr> = abs_registry ?drop"
    proof (rule registry_eqI)
      fix k
      show "fmlookup (m ((abs_registry S)\<lparr>m := fmdrop h (m (abs_registry S))\<rparr>)) k =
          fmlookup (m (abs_registry ?drop)) k"
        using Some other [of k]
        by (cases "fmlookup (table S) k") (auto simp: lookup_abs_registry abs_meter_def)
    qed
    have c: "Counter ?e = obj_Counter obj"
      by (simp add: abs_meter_def)
    show ?thesis
    proof (cases "sint (obj_Counter obj - 1) \<le> 0")
      case True
      with abs c have "Decrement (abs_registry S) (elems (words S) sl) =
          Inr ((abs_registry S)\<lparr>m := fmdrop h (m (abs_registry S))\<rparr>)"
        by simp
      then have "Decrement (abs_registry S) (elems (words S) sl) = Inr (abs_registry ?drop)"
        by (simp only: drop)
      with True wf_drop show ?thesis
        by (simp add: st)
    next
      case False
      with abs c have "Decrement (abs_registry S) (elems (words S) sl) =
          Inr ((abs_registry S)\<lparr>m := fmupd h (?e\<lparr>Counter := Counter ?e - 1\<rparr>) (m (abs_registry S))\<rparr>)"
        by simp
      then have "Decrement (abs_registry S) (elems (words S) sl) = Inr (abs_registry ?keep)"
        by (simp only: keep)
      with False wf_keep show ?thesis
        by (simp add: st)
    qed
  qed
qed

lemma All_loop_total:
  "(\<And>k p. (k, p) \<in> set xs \<Longrightarrow> objects S p \<noteq> None) \<Longrightarrow> \<exists>r. All_loop S xs clone = Inr r"
proof (induction xs arbitrary: clone)
  case Nil
  then show ?case by simp
next
  case (Cons x xs)
  obtain k p where x: "x = (k, p)"
    by (cases x)
  from Cons.prems [of k p] obtain meter where meter: "objects S p = Some meter"
    by (auto simp: x)
  have "\<exists>r. All_loop S xs (clone @ [\<lparr>snap_Ssid = obj_Ssid meter, snap_Channel = obj_Channel meter\<rparr>]) = Inr r"
    using Cons.prems by (intro Cons.IH) auto
  then show ?case
    by (simp add: x meter)
qed

lemma All_st_total: "wf_store S \<Longrightarrow> \<exists>snap. All_st S = Inr snap"
  unfolding All_st_def
  by (rule All_loop_total) (auto simp: set_sorted_list_of_fmap dest: wf_storeD(2))

lemma wf_store_New: "wf_store (NewSubscriptionCounters_st W)"
  by (simp add: wf_store_def NewSubscriptionCounters_st_def)

lemma abs_registry_New: "abs_registry (NewSubscriptionCounters_st W) = NewSubscriptionCounters"
  by (simp add: abs_registry_def NewSubscriptionCounters_st_def NewSubscriptionCounters_def)

lemma step_st_refines:
  assumes "wf_store S" and "step_st S c = Inr S1"
  shows "wf_store S1 \<and> words S1 = words S \<and>
         step (abs_registry S) (map_call (elems (words S)) c) = Inr (abs_registry S1)"
proof (cases c)
  case (CallIncrement sl ch)
  with assms(2) have st: "Increment_st S sl ch = Inr S1"
    by simp
  from Increment_st_refines [OF assms(1), of sl ch] st words_Increment_st [OF st]
  show ?thesis
    by (simp add: CallIncrement)
next
  case (CallDecrement sl)
  with assms(2) have st: "Decrement_st S sl = Inr S1"
    by simp
  from Decrement_st_refines [OF assms(1), of sl] st words_Decrement_st [OF st]
  show ?thesis
    by (simp add: CallDecrement)
next
  case CallAll
  with assms show ?thesis
    by simp
qed

lemma run_st_refines:
  "wf_store S \<Longrightarrow> run_st S cs = Inr S' \<Longrightarrow>
     wf_store S' \<and>
     run (abs_registry S) (map (map_call (elems (words S))) cs) = Inr (abs_registry S')"
proof (induction cs arbitrary: S)
  case Nil
  then show ?case by simp
next
  case (Cons c cs)
  from Cons.prems(2) obtain S1 where 1: "step_st S c = Inr S1" and 2: "run_st S1 cs = Inr S'"
    by (auto split: sum.splits)
  from step_st_refines [OF Cons.prems(1) 1]
  have wf1: "wf_store S1" and w: "words S1 = words S"
    and s: "step (abs_registry S) (map_call (elems (words S)) c) = Inr (abs_registry S1)"
    by simp_all
  from Cons.IH [OF wf1 2] show ?case
    by (simp add: s w)
qed

text \<open>The snapshot has the slice headers of the entries: it shares their backing arrays.\<close>

lemma All_loop_headers:
  "All_loop S xs clone = Inr r \<Longrightarrow> x \<in> set r \<Longrightarrow>
     x \<in> set clone \<or>
     (\<exists>k p meter. (k, p) \<in> set xs \<and> objects S p = Some meter \<and>
        snap_Ssid x = obj_Ssid meter \<and> snap_Channel x = obj_Channel meter)"
proof (induction xs arbitrary: clone)
  case Nil
  then show ?case by simp
next
  case (Cons y xs)
  obtain k p where y: "y = (k, p)"
    by (cases y)
  from Cons.prems(1) obtain meter where meter: "objects S p = Some meter"
    and rest: "All_loop S xs (clone @ [\<lparr>snap_Ssid = obj_Ssid meter, snap_Channel = obj_Channel meter\<rparr>]) = Inr r"
    by (auto simp: y split: option.splits)
  from Cons.IH [OF rest Cons.prems(2)]
  consider "x \<in> set clone"
    | "x = \<lparr>snap_Ssid = obj_Ssid meter, snap_Channel = obj_Channel meter\<rparr>"
    | k' p' meter' where "(k', p') \<in> set xs" and "objects S p' = Some meter'"
        and "snap_Ssid x = obj_Ssid meter'" and "snap_Channel x = obj_Channel meter'"
    by auto
  then show ?case
  proof cases
    case 1
    then show ?thesis by simp
  next
    case 2
    have "(k, p) \<in> set (y # xs)"
      by (simp add: y)
    with meter 2 show ?thesis
      by (intro disjI2 exI [of _ k] exI [of _ p] exI [of _ meter]) simp
  next
    case 3
    then have "(k', p') \<in> set (y # xs)"
      by simp
    with 3 show ?thesis
      by (intro disjI2 exI [of _ k'] exI [of _ p'] exI [of _ meter']) simp
  qed
qed

lemma All_st_shares_headers:
  assumes "All_st S = Inr snap" and "x \<in> set snap"
  shows "\<exists>k p meter. fmlookup (table S) k = Some p \<and> objects S p = Some meter \<and>
           snap_Ssid x = obj_Ssid meter \<and> snap_Channel x = obj_Channel meter"
  using All_loop_headers [OF assms [unfolded All_st_def]]
  by (auto simp: set_sorted_list_of_fmap)



end
